theory Spec2Isabelle
  imports Main "HOL-Library.Multiset"
begin

section \<open>Text: code points, character classes, string helpers\<close>

text \<open>
  The crawler works on Python \<^verbatim>\<open>str\<close> values.  A string is modelled as a
  \<^typ>\<open>string\<close> whose characters are the code points below 256, so that the classes
  \<^verbatim>\<open>\w\<close> and \<^verbatim>\<open>\s\<close> of the \<^verbatim>\<open>re\<close> module and the methods
  \<^verbatim>\<open>isascii\<close>, \<^verbatim>\<open>isalpha\<close> and \<^verbatim>\<open>lower\<close> are the ones Python has on that
  range.
\<close>

definition code :: "char \<Rightarrow> nat" where
  "code c = of_char c"

definition is_upper :: "char \<Rightarrow> bool" where
  "is_upper c = (65 \<le> code c \<and> code c \<le> 90)"

definition is_lower :: "char \<Rightarrow> bool" where
  "is_lower c = (97 \<le> code c \<and> code c \<le> 122)"

definition is_digit :: "char \<Rightarrow> bool" where
  "is_digit c = (48 \<le> code c \<and> code c \<le> 57)"

definition is_ascii_alpha :: "char \<Rightarrow> bool" where
  \<comment> \<open>\<^verbatim>\<open>c.isascii() and c.isalpha()\<close>\<close>
  "is_ascii_alpha c = (is_upper c \<or> is_lower c)"

definition lower :: "char \<Rightarrow> char" where
  \<comment> \<open>\<^verbatim>\<open>str.lower\<close> on an ASCII letter, and the case-insensitive comparison of
      \<^verbatim>\<open>re.I\<close> against an ASCII pattern letter: the code of a capital letter plus 32,
      which sets the bit of value 32\<close>
  "lower c =
     (if is_upper c
      then (case c of Char b0 b1 b2 b3 b4 b5 b6 b7 \<Rightarrow> Char b0 b1 b2 b3 b4 True b6 b7)
      else c)"

definition is_word :: "char \<Rightarrow> bool" where
  \<comment> \<open>\<^verbatim>\<open>\w\<close> of a \<^verbatim>\<open>str\<close> pattern: alphanumeric or underscore.  Below 256 the
      alphanumeric code points are the ASCII letters and digits, 170, 178, 179, 181,
      185, 186, 188 to 190, 192 to 214, 216 to 246 and 248 to 255.\<close>
  "is_word c = (is_upper c \<or> is_lower c \<or> is_digit c \<or> code c = 95
     \<or> code c \<in> {170, 178, 179, 181, 185, 186, 188, 189, 190}
     \<or> (192 \<le> code c \<and> code c \<le> 214) \<or> (216 \<le> code c \<and> code c \<le> 246)
     \<or> 248 \<le> code c)"

definition is_space :: "char \<Rightarrow> bool" where
  \<comment> \<open>\<^verbatim>\<open>\s\<close> of a \<^verbatim>\<open>str\<close> pattern: tab to carriage return, the separators 28 to
      31, space, 133 and 160\<close>
  "is_space c = ((9 \<le> code c \<and> code c \<le> 13) \<or> (28 \<le> code c \<and> code c \<le> 32)
     \<or> code c = 133 \<or> code c = 160)"

text \<open>
  \<^verbatim>\<open>s.split(sep)[0]\<close> for a one-character separator: \<^verbatim>\<open>split\<close> cuts at every
  occurrence of the separator and always returns at least one piece.
\<close>

fun split :: "char \<Rightarrow> string \<Rightarrow> string list" where
  "split sep [] = [[]]"
| "split sep (c # cs) =
     (if c = sep then [] # split sep cs
      else (case split sep cs of
              [] \<Rightarrow> [[c]]
            | p # ps \<Rightarrow> (c # p) # ps))"

definition first_piece :: "char \<Rightarrow> string \<Rightarrow> string" where
  \<comment> \<open>\<^verbatim>\<open>s.split(sep)[0]\<close>; the list is never empty, so the index is in range\<close>
  "first_piece sep s = (case split sep s of [] \<Rightarrow> [] | p # _ \<Rightarrow> p)"

definition clean_url :: "string \<Rightarrow> string" where
  \<comment> \<open>line 83: \<^verbatim>\<open>url.split('?')[0].split('#')[0]\<close>\<close>
  "clean_url url = first_piece (CHR ''#'') (first_piece (CHR ''?'') url)"


section \<open>Library: \<^verbatim>\<open>urllib.parse\<close>\<close>

text \<open>
  The crawler reads two components of \<^verbatim>\<open>urlparse(url)\<close>: the scheme and the network
  location.  They are computed as \<^verbatim>\<open>urlsplit\<close> of CPython 3.11 does: leading C0
  control characters and spaces are stripped, tabs and line breaks are removed, the
  text before the first colon is the scheme when it starts with an ASCII letter and
  consists of scheme characters, and after \<^verbatim>\<open>//\<close> the network location runs to the
  first of \<^verbatim>\<open>/\<close>, \<^verbatim>\<open>?\<close> and \<^verbatim>\<open>#\<close>.  A network location with one square bracket
  and not the other raises \<^verbatim>\<open>ValueError\<close>.  The later checks of a bracketed host and
  of the NFKC form of a non-ASCII location, which raise the same error in further
  cases, are left out.
\<close>

datatype error = ValueError | TypeError | RequestException

record parse_result =
  scheme :: string
  netloc :: string

definition scheme_chars :: string where
  "scheme_chars = ''abcdefghijklmnopqrstuvwxyzABCDEFGHIJKLMNOPQRSTUVWXYZ0123456789+-.''"

definition url_prep :: "string \<Rightarrow> string" where
  \<comment> \<open>\<^verbatim>\<open>url.lstrip(_WHATWG_C0_CONTROL_OR_SPACE)\<close>, then tab, CR and LF removed\<close>
  "url_prep url =
     filter (\<lambda>c. code c \<noteq> 9 \<and> code c \<noteq> 13 \<and> code c \<noteq> 10) (dropWhile (\<lambda>c. code c \<le> 32) url)"

definition split_scheme :: "string \<Rightarrow> string \<Rightarrow> string \<times> string" where
  \<comment> \<open>\<^verbatim>\<open>i = url.find(':')\<close>; with \<^verbatim>\<open>i > 0\<close>, an ASCII letter first and only scheme
      characters before the colon: \<^verbatim>\<open>scheme, url = url[:i].lower(), url[i+1:]\<close>\<close>
  "split_scheme url dflt =
     (case takeWhile (\<lambda>c. c \<noteq> CHR '':'') url of
        [] \<Rightarrow> (dflt, url)
      | c # cs \<Rightarrow>
          if CHR '':'' \<in> set url \<and> is_ascii_alpha c \<and> list_all (\<lambda>x. x \<in> set scheme_chars) (c # cs)
          then (map lower (c # cs), drop (Suc (length (c # cs))) url)
          else (dflt, url))"

definition netloc_of :: "string \<Rightarrow> string" where
  \<comment> \<open>\<^verbatim>\<open>if url[:2] == '//': netloc, url = _splitnetloc(url, 2)\<close>\<close>
  "netloc_of rest =
     (if take 2 rest = ''//''
      then takeWhile (\<lambda>c. c \<noteq> CHR ''/'' \<and> c \<noteq> CHR ''?'' \<and> c \<noteq> CHR ''#'') (drop 2 rest)
      else [])"

definition unbalanced :: "string \<Rightarrow> bool" where
  "unbalanced nl = ((CHR ''['' \<in> set nl \<and> CHR '']'' \<notin> set nl) \<or> (CHR '']'' \<in> set nl \<and> CHR ''['' \<notin> set nl))"

definition urlparse :: "string \<Rightarrow> string \<Rightarrow> error + parse_result" where
  \<comment> \<open>\<^verbatim>\<open>urlparse(url, scheme)\<close>; the second argument is the default scheme\<close>
  "urlparse url dflt =
     (case split_scheme (url_prep url) dflt of
        (sch, rest) \<Rightarrow>
          if unbalanced (netloc_of rest) then Inl ValueError
          else Inr \<lparr>scheme = sch, netloc = netloc_of rest\<rparr>)"

section \<open>Library: \<^verbatim>\<open>re\<close>\<close>

text \<open>
  The patterns of the crawler use literals, alternatives of literals, character
  classes, the greedy \<^verbatim>\<open>+\<close> on a class, \<^verbatim>\<open>\b\<close> and \<^verbatim>\<open>$\<close>.  A position in the
  subject is the character before it (if any) and the text after it.  \<open>rmatch\<close>
  lists the positions at which a match of the pattern that starts at the given
  position can end, in the order in which the backtracking matcher of \<^verbatim>\<open>re\<close> tries
  them: alternatives from left to right, longer repetitions before shorter ones.
  The flag is \<^verbatim>\<open>re.I\<close>; every letter of the patterns is ASCII, and below 256 only
  the two ASCII cases of a letter match it.
\<close>

datatype regex =
    Lit string
  | AnyOf "string list"
  | In "char \<Rightarrow> bool"
  | Plus "char \<Rightarrow> bool"
  | Seq regex regex
  | WordB
  | Eol

type_synonym pos = "char option \<times> string"

definition eq_char :: "bool \<Rightarrow> char \<Rightarrow> char \<Rightarrow> bool" where
  "eq_char ic c x = (if ic then lower x = lower c else x = c)"

fun lit_match :: "bool \<Rightarrow> string \<Rightarrow> pos \<Rightarrow> pos list" where
  "lit_match ic [] st = [st]"
| "lit_match ic (c # cs) (p, []) = []"
| "lit_match ic (c # cs) (p, x # xs) =
     (if eq_char ic c x then lit_match ic cs (Some x, xs) else [])"

fun star_states :: "(char \<Rightarrow> bool) \<Rightarrow> pos \<Rightarrow> pos list" where
  "star_states P (p, []) = [(p, [])]"
| "star_states P (p, x # xs) =
     (if P x then star_states P (Some x, xs) else []) @ [(p, x # xs)]"

definition word_before :: "pos \<Rightarrow> bool" where
  "word_before st = (case fst st of None \<Rightarrow> False | Some c \<Rightarrow> is_word c)"

definition word_after :: "pos \<Rightarrow> bool" where
  "word_after st = (case snd st of [] \<Rightarrow> False | c # _ \<Rightarrow> is_word c)"

fun rmatch :: "bool \<Rightarrow> regex \<Rightarrow> pos \<Rightarrow> pos list" where
  "rmatch ic (Lit s) st = lit_match ic s st"
| "rmatch ic (AnyOf ws) st = concat (map (\<lambda>w. lit_match ic w st) ws)"
| "rmatch ic (In P) (p, []) = []"
| "rmatch ic (In P) (p, x # xs) = (if P x then [(Some x, xs)] else [])"
| "rmatch ic (Plus P) (p, []) = []"
| "rmatch ic (Plus P) (p, x # xs) = (if P x then star_states P (Some x, xs) else [])"
| "rmatch ic (Seq r1 r2) st = concat (map (rmatch ic r2) (rmatch ic r1 st))"
| "rmatch ic WordB st = (if word_before st \<noteq> word_after st then [st] else [])"
| "rmatch ic Eol st = (if snd st = [] \<or> snd st = [CHR 0x0A] then [st] else [])"

fun search_from :: "bool \<Rightarrow> regex \<Rightarrow> pos \<Rightarrow> bool" where
  "search_from ic r (p, []) = (rmatch ic r (p, []) \<noteq> [])"
| "search_from ic r (p, x # xs) = (rmatch ic r (p, x # xs) \<noteq> [] \<or> search_from ic r (Some x, xs))"

definition re_search :: "bool \<Rightarrow> regex \<Rightarrow> string \<Rightarrow> bool" where
  \<comment> \<open>\<^verbatim>\<open>re.search(p, s, flags)\<close> as a truth value: a match starts somewhere\<close>
  "re_search ic r s = search_from ic r (None, s)"

text \<open>
  \<^verbatim>\<open>re.findall\<close> for a pattern of the form \<^verbatim>\<open>pre(grp)post\<close>, returning what the group
  captured in each match.  Matches are found from left to right and do not overlap:
  after a match the scan goes on where it ended.  \<open>first_match\<close> gives the captured text
  and the length of the match the matcher finds first at a position.  The patterns of
  the crawler match no empty string.
\<close>

definition first_match :: "bool \<Rightarrow> regex \<Rightarrow> regex \<Rightarrow> regex \<Rightarrow> pos \<Rightarrow> (string \<times> nat) option" where
  "first_match ic pre grp post st =
     (case concat (map (\<lambda>s1. concat (map (\<lambda>s2. map (\<lambda>s3. (s1, s2, s3)) (rmatch ic post s2))
                                          (rmatch ic grp s1)))
                       (rmatch ic pre st)) of
        [] \<Rightarrow> None
      | (s1, s2, s3) # _ \<Rightarrow>
          Some (take (length (snd s1) - length (snd s2)) (snd s1),
                length (snd st) - length (snd s3)))"

fun findall_from :: "bool \<Rightarrow> regex \<Rightarrow> regex \<Rightarrow> regex \<Rightarrow> nat \<Rightarrow> pos \<Rightarrow> string list" where
  "findall_from ic pre grp post k (p, []) =
     (if k = 0 then (case first_match ic pre grp post (p, []) of
                       None \<Rightarrow> []
                     | Some (g, n) \<Rightarrow> [g])
      else [])"
| "findall_from ic pre grp post k (p, x # xs) =
     (if 0 < k then findall_from ic pre grp post (k - 1) (Some x, xs)
      else (case first_match ic pre grp post (p, x # xs) of
              None \<Rightarrow> findall_from ic pre grp post 0 (Some x, xs)
            | Some (g, n) \<Rightarrow> g # findall_from ic pre grp post (n - 1) (Some x, xs)))"

definition re_findall :: "bool \<Rightarrow> regex \<Rightarrow> regex \<Rightarrow> regex \<Rightarrow> string \<Rightarrow> string list" where
  "re_findall ic pre grp post s = findall_from ic pre grp post 0 (None, s)"

section \<open>Library: \<^verbatim>\<open>requests\<close>, \<^verbatim>\<open>BeautifulSoup\<close>, sets\<close>

text \<open>
  What lies outside the program is a parameter of the model, the record \<open>env\<close>:
  \<^item> \<open>http_get url\<close> is the text of the response to \<^verbatim>\<open>requests.get(url)\<close>, or \<open>None\<close>
    when the call raises;
  \<^item> \<open>parse_html text\<close> is the document \<^verbatim>\<open>BeautifulSoup(text, 'html.parser')\<close>;
  \<^item> \<open>resolve base url\<close> is the reference resolution that \<^verbatim>\<open>urljoin\<close> performs once
    it has parsed both arguments;
  \<^item> \<open>set_iter xs\<close> is the order in which Python iterates over the set built by adding
    the elements of \<open>xs\<close> one after the other.  For strings that order depends on the
    hash seed of the process.  A Python set that the program iterates over is
    modelled as this list.
\<close>

datatype element = Tag (tag_name: string) (tag_attrs: "(string \<times> string) list")
  (tag_contents: "element list")

record env =
  http_get :: "string \<Rightarrow> string option"
  parse_html :: "string \<Rightarrow> element list"
  resolve :: "string \<Rightarrow> string \<Rightarrow> string"
  set_iter :: "string list \<Rightarrow> string list"

definition wf_env :: "env \<Rightarrow> bool" where
  \<comment> \<open>iterating over a set yields each of its elements once\<close>
  "wf_env e = (\<forall>xs. distinct (set_iter e xs) \<and> set (set_iter e xs) = set xs)"

fun find_all :: "string list \<Rightarrow> element list \<Rightarrow> element list" where
  \<comment> \<open>\<^verbatim>\<open>find_all(names)\<close>: the tags with one of the names, in document order\<close>
  "find_all names [] = []"
| "find_all names (Tag n as cs # rest) =
     (if n \<in> set names then [Tag n as cs] else []) @ find_all names cs @ find_all names rest"

definition get_attr :: "element \<Rightarrow> string \<Rightarrow> string \<Rightarrow> string" where
  \<comment> \<open>\<^verbatim>\<open>element.get(attr, default)\<close>\<close>
  "get_attr e attr dflt = (case map_of (tag_attrs e) attr of None \<Rightarrow> dflt | Some v \<Rightarrow> v)"

definition child_tag :: "element \<Rightarrow> string \<Rightarrow> element option" where
  \<comment> \<open>\<^verbatim>\<open>element.name\<close> for a name that is no attribute of the class \<^verbatim>\<open>Tag\<close>: BeautifulSoup
      reads it as \<^verbatim>\<open>element.find(name)\<close>, the first tag of that name below the
      element, or \<^verbatim>\<open>None\<close>\<close>
  "child_tag e n = (case find_all [n] (tag_contents e) of [] \<Rightarrow> None | t # _ \<Rightarrow> Some t)"

definition urljoin :: "env \<Rightarrow> string \<Rightarrow> string \<Rightarrow> error + string" where
  \<comment> \<open>\<^verbatim>\<open>urljoin(base, url)\<close> for two strings: \<^verbatim>\<open>if not base: return url\<close>,
      \<^verbatim>\<open>if not url: return base\<close>, then both are parsed (which may raise) and the
      reference is resolved\<close>
  "urljoin e base url =
     (if base = [] then Inr url
      else if url = [] then Inr base
      else (case urlparse base [] of
              Inl err \<Rightarrow> Inl err
            | Inr b \<Rightarrow>
                (case urlparse url (scheme b) of
                   Inl err \<Rightarrow> Inl err
                 | Inr p \<Rightarrow> Inr (resolve e base url))))"

datatype pyval = Str string | TagV element

definition urljoin_any :: "env \<Rightarrow> string \<Rightarrow> pyval \<Rightarrow> error + pyval" where
  \<comment> \<open>\<^verbatim>\<open>urljoin(base, v)\<close> where \<open>v\<close> may be a tag: a tag is true, and with a non-empty
      base \<^verbatim>\<open>_coerce_args\<close> raises \<^verbatim>\<open>TypeError\<close> on an argument that is no string\<close>
  "urljoin_any e base v =
     (if base = [] then Inr v
      else (case v of
              Str u \<Rightarrow> (case urljoin e base u of Inl err \<Rightarrow> Inl err | Inr r \<Rightarrow> Inr (Str r))
            | TagV t \<Rightarrow> Inl TypeError))"

section \<open>The crawler\<close>

text \<open>
  The object of class \<^verbatim>\<open>LiveCrawler\<close>.  The dictionary \<^verbatim>\<open>found\<close> is its three sets (\<open>found_html_pages\<close> for \<^verbatim>\<open>found['html_pages']\<close>, and so on),
  \<^verbatim>\<open>progress\<close> its three counters.  \<open>printed\<close> is the sequence of calls of
  \<^verbatim>\<open>print_finding\<close>, each with its type and value: the first-discovery notifications.
\<close>

record crawler =
  base_url :: string
  domain :: string
  max_depth :: int
  visited_urls :: "string set"
  queue :: "(string \<times> int) list"
  found_html_pages :: "string set"
  found_backend_endpoints :: "string set"
  found_functions :: "string set"
  stop_event :: bool
  progress_crawled :: int
  progress_queued :: int
  progress_depth :: int
  printed :: "(string \<times> string) list"

definition init :: "string \<Rightarrow> int \<Rightarrow> error + crawler" where
  \<comment> \<open>\<^verbatim>\<open>__init__\<close>, lines 20 to 37\<close>
  "init url d =
     (case urlparse url [] of
        Inl e \<Rightarrow> Inl e
      | Inr parsed \<Rightarrow>
          Inr \<lparr>base_url = url, domain = netloc parsed, max_depth = d, visited_urls = {},
               queue = [(url, 0)], found_html_pages = {}, found_backend_endpoints = {}, found_functions = {},
               stop_event = False, progress_crawled = 0, progress_queued = 1,
               progress_depth = 0, printed = []\<rparr>)"

definition is_valid_url :: "crawler \<Rightarrow> string \<Rightarrow> error + bool" where
  \<comment> \<open>lines 39 to 42\<close>
  "is_valid_url self url =
     (case urlparse url [] of
        Inl e \<Rightarrow> Inl e
      | Inr parsed \<Rightarrow>
          Inr (netloc parsed = domain self \<and> (scheme parsed = ''http'' \<or> scheme parsed = ''https'')))"

definition backend_patterns :: "regex list" where
  "backend_patterns =
     [Seq (Lit ''.'') (Seq (AnyOf [''json'', ''xml'', ''ashx'', ''asmx'', ''php'', ''jsp'', ''do'',
                                    ''action'', ''api'', ''rest'']) WordB),
      Lit ''/api/'',
      Lit ''/ws/'',
      Lit ''/rest/'',
      Seq (Lit ''?'') (Seq (AnyOf [''action'', ''method'', ''api_key'']) (Lit ''='')),
      Seq (Lit ''.cgi'') WordB]"

definition page_patterns :: "regex list" where
  "page_patterns =
     [Seq (Lit ''.'') (Seq (AnyOf [''html'', ''htm'', ''asp'', ''aspx'', ''cfm'']) WordB),
      Seq (Lit ''/'') (Seq (Plus (\<lambda>c. c \<noteq> CHR ''/'' \<and> c \<noteq> CHR ''.'')) Eol)]"

definition classify_endpoint :: "string \<Rightarrow> string" where
  \<comment> \<open>lines 44 to 64\<close>
  "classify_endpoint url =
     (if list_ex (\<lambda>p. re_search True p url) backend_patterns then ''backend''
      else if list_ex (\<lambda>p. re_search True p url) page_patterns then ''html''
      else ''unknown'')"

definition print_finding :: "string \<Rightarrow> string \<Rightarrow> crawler \<Rightarrow> crawler" where
  \<comment> \<open>lines 130 to 138: one line of output per call\<close>
  "print_finding type v self = self\<lparr>printed := printed self @ [(type, v)]\<rparr>"

definition process_endpoint :: "string \<Rightarrow> crawler \<Rightarrow> crawler" where
  \<comment> \<open>lines 79 to 90\<close>
  "process_endpoint url self =
     (let classification = classify_endpoint url;
          clean = clean_url url
      in if classification = ''html'' \<and> clean \<notin> found_html_pages self
         then print_finding ''html'' clean (self\<lparr>found_html_pages := insert clean (found_html_pages self)\<rparr>)
         else if classification = ''backend'' \<and> clean \<notin> found_backend_endpoints self
         then print_finding ''backend'' clean
                (self\<lparr>found_backend_endpoints := insert clean (found_backend_endpoints self)\<rparr>)
         else self)"


definition attr_of :: "string \<Rightarrow> string option" where
  \<comment> \<open>lines 70 to 72\<close>
  "attr_of n =
     (if n = ''a'' \<or> n = ''link'' then Some ''href''
      else if n = ''script'' \<or> n = ''frame'' \<or> n = ''iframe'' then Some ''src''
      else if n = ''form'' then Some ''action''
      else None)"

fun find_links_loop :: "crawler \<Rightarrow> env \<Rightarrow> string \<Rightarrow> element list \<Rightarrow> string list \<Rightarrow> error + string list" where
  \<comment> \<open>the loop of lines 69 to 76; \<open>links\<close> holds the URLs added so far, in order\<close>
  "find_links_loop self e base [] links = Inr links"
| "find_links_loop self e base (el # els) links =
     (case attr_of (tag_name el) of
        None \<Rightarrow> find_links_loop self e base els links
      | Some attr \<Rightarrow>
          (case urljoin e base (get_attr el attr []) of
             Inl err \<Rightarrow> Inl err
           | Inr url \<Rightarrow>
               (case is_valid_url self url of
                  Inl err \<Rightarrow> Inl err
                | Inr ok \<Rightarrow>
                    find_links_loop self e base els (if ok then links @ [url] else links))))"

definition find_links :: "crawler \<Rightarrow> env \<Rightarrow> element list \<Rightarrow> string \<Rightarrow> error + string list" where
  \<comment> \<open>lines 66 to 77; the result is the returned set, in the order of its iteration\<close>
  "find_links self e soup base =
     (case find_links_loop self e base
             (find_all [''a'', ''form'', ''frame'', ''iframe'', ''script'', ''link''] soup) [] of
        Inl err \<Rightarrow> Inl err
      | Inr links \<Rightarrow> Inr (set_iter e links))"

definition api_pre :: regex where
  "api_pre = Seq (AnyOf [''fetch'', ''axios'', ''.ajax'', ''XMLHttpRequest''])
               (Seq (Lit ''('') (In (\<lambda>c. c = CHR 0x27 \<or> c = CHR 0x22)))"

definition api_grp :: regex where
  "api_grp = Plus (\<lambda>c. c \<noteq> CHR 0x27 \<and> c \<noteq> CHR 0x22)"

definition fn_pre :: regex where
  "fn_pre = Seq WordB (Seq (AnyOf [''function'', ''const'', ''let'', ''var'']) (Plus is_space))"

definition id_start :: "char \<Rightarrow> bool" where
  \<comment> \<open>\<^verbatim>\<open>[a-zA-Z_$]\<close>\<close>
  "id_start c = (is_upper c \<or> is_lower c \<or> c = CHR ''_'' \<or> c = CHR ''$'')"

definition id_char :: "char \<Rightarrow> bool" where
  \<comment> \<open>\<^verbatim>\<open>[\w$]\<close>\<close>
  "id_char c = (is_word c \<or> c = CHR ''$'')"

definition fn_grp :: regex where
  "fn_grp = Seq (In id_start) (Plus id_char)"

fun api_loop :: "env \<Rightarrow> string \<Rightarrow> string list \<Rightarrow> crawler \<Rightarrow> (error + unit) \<times> crawler" where
  \<comment> \<open>the loop of lines 105 to 108\<close>
  "api_loop e url [] self = (Inr (), self)"
| "api_loop e url (ep # eps) self =
     (case urljoin e url ep of
        Inl err \<Rightarrow> (Inl err, self)
      | Inr full_url \<Rightarrow>
          (case is_valid_url self full_url of
             Inl err \<Rightarrow> (Inl err, self)
           | Inr ok \<Rightarrow> api_loop e url eps (if ok then process_endpoint full_url self else self)))"

definition analyze_js_try :: "env \<Rightarrow> string \<Rightarrow> crawler \<Rightarrow> (error + string list) \<times> crawler" where
  \<comment> \<open>the body of the \<^verbatim>\<open>try\<close>, lines 95 to 115: the outcome and the crawler as it was
      left.  The second group of the function pattern is what \<^verbatim>\<open>fn[1]\<close> reads.\<close>
  "analyze_js_try e url self =
     (case http_get e url of
        None \<Rightarrow> (Inl RequestException, self)
      | Some content \<Rightarrow>
          (case api_loop e url (re_findall True api_pre api_grp (Lit []) content) self of
             (Inl err, self') \<Rightarrow> (Inl err, self')
           | (Inr u, self') \<Rightarrow>
               (Inr (set_iter e (re_findall False fn_pre fn_grp WordB content)), self')))"

definition analyze_js :: "env \<Rightarrow> string \<Rightarrow> crawler \<Rightarrow> string list \<times> crawler" where
  \<comment> \<open>lines 92 to 117: \<^verbatim>\<open>except: return set()\<close>\<close>
  "analyze_js e url self =
     (case analyze_js_try e url self of
        (Inl err, self') \<Rightarrow> ([], self')
      | (Inr fns, self') \<Rightarrow> (fns, self'))"

definition analyze_js_any :: "env \<Rightarrow> pyval \<Rightarrow> crawler \<Rightarrow> string list \<times> crawler" where
  \<comment> \<open>\<^verbatim>\<open>analyze_js\<close> called with a tag: \<^verbatim>\<open>requests.get\<close> raises on it inside the
      \<^verbatim>\<open>try\<close>\<close>
  "analyze_js_any e v self = (case v of Str u \<Rightarrow> analyze_js e u self | TagV t \<Rightarrow> ([], self))"

definition merge_functions :: "string list \<Rightarrow> crawler \<Rightarrow> crawler" where
  \<comment> \<open>lines 176 to 179: \<^verbatim>\<open>update\<close>, then one call of \<^verbatim>\<open>print_finding\<close> for each
      element of the returned set\<close>
  "merge_functions fns self =
     fold (\<lambda>fn s. print_finding ''function'' fn s) fns
       (self\<lparr>found_functions := found_functions self \<union> set fns\<rparr>)"

definition enqueue_link :: "int \<Rightarrow> string \<Rightarrow> crawler \<Rightarrow> crawler" where
  \<comment> \<open>lines 165 to 169, the body of the loop over the links\<close>
  "enqueue_link depth link self =
     (let self1 = process_endpoint link self
      in if link \<notin> visited_urls self1
         then (let q = queue self1 @ [(link, depth + 1)]
               in self1\<lparr>queue := q, progress_queued := int (length q)\<rparr>)
         else self1)"

fun crawl_scripts :: "env \<Rightarrow> string \<Rightarrow> element list \<Rightarrow> crawler \<Rightarrow> (error + unit) \<times> crawler" where
  \<comment> \<open>lines 172 to 179.  \<^verbatim>\<open>script.src\<close> is the first tag named \<^verbatim>\<open>src\<close> inside the
      script element, not its attribute.\<close>
  "crawl_scripts e url [] self = (Inr (), self)"
| "crawl_scripts e url (script # scripts) self =
     (case child_tag script ''src'' of
        None \<Rightarrow> crawl_scripts e url scripts self
      | Some src \<Rightarrow>
          (case urljoin_any e url (TagV src) of
             Inl err \<Rightarrow> (Inl err, self)
           | Inr js_url \<Rightarrow>
               (case analyze_js_any e js_url self of
                  (fns, self') \<Rightarrow> crawl_scripts e url scripts (merge_functions fns self'))))"

definition crawl_try :: "env \<Rightarrow> string \<Rightarrow> int \<Rightarrow> crawler \<Rightarrow> (error + unit) \<times> crawler" where
  \<comment> \<open>the body of the inner \<^verbatim>\<open>try\<close>, lines 158 to 181\<close>
  "crawl_try e url depth self =
     (case http_get e url of
        None \<Rightarrow> (Inl RequestException, self)
      | Some text \<Rightarrow>
          (let self1 = process_endpoint url self;
               soup = parse_html e text
           in case find_links self1 e soup url of
                Inl err \<Rightarrow> (Inl err, self1)
              | Inr links \<Rightarrow>
                  crawl_scripts e url (find_all [''script''] soup)
                    (fold (enqueue_link depth) links self1)))"

definition crawl_iteration :: "env \<Rightarrow> crawler \<Rightarrow> crawler" where
  \<comment> \<open>one pass through the body of the \<^verbatim>\<open>while\<close> loop, lines 147 to 184; an exception
      of the inner \<^verbatim>\<open>try\<close> ends the pass and keeps what was done\<close>
  "crawl_iteration e self =
     (case queue self of
        [] \<Rightarrow> self
      | (url, depth) # q \<Rightarrow>
          (let self0 = self\<lparr>queue := q\<rparr>
           in if url \<in> visited_urls self0 \<or> depth > max_depth self0 then self0
              else snd (crawl_try e url depth
                     (self0\<lparr>visited_urls := insert url (visited_urls self0),
                            progress_depth := depth,
                            progress_crawled := progress_crawled self0 + 1,
                            progress_queued := int (length q)\<rparr>))))"

text \<open>
  The \<^verbatim>\<open>while\<close> loop of \<^verbatim>\<open>crawl\<close>, lines 146 to 184, and \<^verbatim>\<open>crawl\<close> itself, whose
  \<^verbatim>\<open>finally\<close> sets the stop event.  The loop ends on every input: an entry that is
  processed is replaced by entries one level deeper, and no entry beyond the maximum
  depth is processed.  The progress thread only reads the crawler and is left out.
\<close>

definition weight :: "int \<Rightarrow> string \<times> int \<Rightarrow> nat" where
  "weight m ud = nat (m + 1 - snd ud)"

function crawl_loop :: "env \<Rightarrow> crawler \<Rightarrow> crawler" where
  "crawl_loop e self =
     (if queue self \<noteq> [] \<and> \<not> stop_event self then crawl_loop e (crawl_iteration e self) else self)"
  by pat_completeness auto

definition crawl :: "env \<Rightarrow> crawler \<Rightarrow> crawler" where
  "crawl e self = (crawl_loop e self)\<lparr>stop_event := True\<rparr>"

definition ctl :: "crawler \<Rightarrow> string \<times> string \<times> int \<times> string set \<times> (string \<times> int) list \<times> bool \<times> int \<times> int \<times> int" where
  \<comment> \<open>the fields that storing a finding leaves alone\<close>
  "ctl s = (base_url s, domain s, max_depth s, visited_urls s, queue s, stop_event s,
            progress_crawled s, progress_queued s, progress_depth s)"

section \<open>Example worlds\<close>

text \<open>
  A site of one page: the seed is the only URL that answers, and its document is
  \<open>doc\<close>.  Every reference in the examples is an absolute URL, which \<^verbatim>\<open>urljoin\<close>
  returns as it is; sets are iterated in the order of insertion.
\<close>

definition one_page :: "string \<Rightarrow> element list \<Rightarrow> env" where
  "one_page seed doc =
     \<lparr>http_get = (\<lambda>u. if u = seed then Some ''page'' else None),
      parse_html = (\<lambda>t. doc), resolve = (\<lambda>b u. u), set_iter = remdups\<rparr>"

definition two_links :: "element list" where
  "two_links = [Tag ''a'' [(''href'', ''http://h/p'')] [],
                Tag ''a'' [(''href'', ''http://h/p?action=x'')] []]"

definition seed_crawler :: "int \<Rightarrow> crawler" where
  \<comment> \<open>\<^verbatim>\<open>LiveCrawler('http://h/', max_depth=d)\<close>\<close>
  "seed_crawler d =
     \<lparr>base_url = ''http://h/'', domain = ''h'', max_depth = d, visited_urls = {},
      queue = [(''http://h/'', 0)], found_html_pages = {}, found_backend_endpoints = {},
      found_functions = {}, stop_event = False, progress_crawled = 0, progress_queued = 1,
      progress_depth = 0, printed = []\<rparr>"

text \<open>
  A script that names two targets, the second of which \<^verbatim>\<open>urlparse\<close> rejects, and a
  world in which it is the one URL that answers.
\<close>

definition js_text :: string where
  \<open>js_text = ''fetch("http://h/api/x");fetch("http://[")''\<close>

definition js_env :: env where
  "js_env = \<lparr>http_get = (\<lambda>u. if u = ''http://h/a.js'' then Some js_text else None),
     parse_html = (\<lambda>t. []), resolve = (\<lambda>b u. u), set_iter = remdups\<rparr>"

section \<open>Invariants of the loop\<close>

definition seed_only :: "string \<Rightarrow> crawler \<Rightarrow> bool" where
  \<comment> \<open>with maximum depth 0: either nothing was processed and the seed waits, or the seed
      was processed and every entry that waits is deeper\<close>
  "seed_only u s =
     (max_depth s = 0 \<and> \<not> stop_event s \<and>
      ((queue s = [(u, 0)] \<and> visited_urls s = {} \<and> progress_crawled s = 0) \<or>
       (visited_urls s = {u} \<and> progress_crawled s = 1 \<and> list_all (\<lambda>x. 1 \<le> snd x) (queue s))))"

text \<open>
  For the validity of what is stored: \<open>valid_for host k\<close> says that \<^verbatim>\<open>urlparse\<close> gives
  \<open>k\<close> the network location \<open>host\<close> and the scheme http or https, which is what
  \<^verbatim>\<open>is_valid_url\<close> tests.  \<open>http_only e\<close> says that only such URLs are answered: it
  holds of \<^verbatim>\<open>requests\<close>, which raises on every other scheme.
\<close>

definition valid_for :: "string \<Rightarrow> string \<Rightarrow> bool" where
  "valid_for host k = (case urlparse k [] of Inl err \<Rightarrow> False
     | Inr p \<Rightarrow> netloc p = host \<and> (scheme p = ''http'' \<or> scheme p = ''https''))"

definition store_ok :: "string \<Rightarrow> crawler \<Rightarrow> bool" where
  "store_ok host s = (domain s = host \<and>
     (\<forall>k \<in> found_html_pages s \<union> found_backend_endpoints s. valid_for host k))"

definition http_only :: "env \<Rightarrow> bool" where
  "http_only e = (\<forall>url. http_get e url \<noteq> None \<longrightarrow>
     (case urlparse url [] of Inl err \<Rightarrow> False | Inr p \<Rightarrow> scheme p = ''http'' \<or> scheme p = ''https''))"

definition crawl_inv :: "string \<Rightarrow> string \<Rightarrow> crawler \<Rightarrow> bool" where
  "crawl_inv u host s = (store_ok host s \<and> (\<forall>x \<in> set (queue s). fst x = u \<or> valid_for host (fst x)))"

definition seed_ok :: "env \<Rightarrow> string \<Rightarrow> string \<Rightarrow> bool" where
  "seed_ok e u host = (valid_for host u \<or>
     (http_only e \<and> (case urlparse u [] of Inl err \<Rightarrow> False | Inr p \<Rightarrow> netloc p = host)))"

text \<open>
  \<open>grows s s'\<close>: the crawler \<open>s'\<close> differs from \<open>s\<close> at most by findings added to the
  sets of pages and endpoints, and by what was printed.
\<close>

definition grows :: "crawler \<Rightarrow> crawler \<Rightarrow> bool" where
  "grows s s' = (ctl s' = ctl s \<and> found_functions s' = found_functions s \<and>
     found_html_pages s \<subseteq> found_html_pages s' \<and>
     found_backend_endpoints s \<subseteq> found_backend_endpoints s')"



text \<open>Auxiliary notions for the parse of a canonical key.\<close>

definition keeps :: "char \<Rightarrow> bool" where
  "keeps c = (c \<noteq> CHR ''?'' \<and> c \<noteq> CHR ''#'')"

definition has_scheme :: "string \<Rightarrow> bool" where
  "has_scheme v = (case takeWhile (\<lambda>c. c \<noteq> CHR '':'') v of [] \<Rightarrow> False
     | c # cs \<Rightarrow> CHR '':'' \<in> set v \<and> is_ascii_alpha c \<and> list_all (\<lambda>x. x \<in> set scheme_chars) (c # cs))"

section \<open>What a finding leaves alone; the loop ends\<close>

lemma ctl_fields:
  assumes "ctl s' = ctl s"
  shows "base_url s' = base_url s" "domain s' = domain s" "max_depth s' = max_depth s"
    "visited_urls s' = visited_urls s" "queue s' = queue s" "stop_event s' = stop_event s"
    "progress_crawled s' = progress_crawled s" "progress_depth s' = progress_depth s"
  using assms by (simp_all add: ctl_def)

lemma ctl_print_finding [simp]: "ctl (print_finding t v s) = ctl s"
  by (simp add: ctl_def print_finding_def)

lemma ctl_process_endpoint [simp]: "ctl (process_endpoint u s) = ctl s"
  by (simp add: process_endpoint_def Let_def) (simp add: ctl_def)

lemma ctl_fold_print: "ctl (fold (\<lambda>fn s. print_finding t fn s) fns s) = ctl s"
  by (induction fns arbitrary: s) simp_all

lemma ctl_merge_functions [simp]: "ctl (merge_functions fns s) = ctl s"
  by (simp add: merge_functions_def ctl_fold_print) (simp add: ctl_def)

lemma ctl_api_loop: "api_loop e url eps s = (r, s') \<Longrightarrow> ctl s' = ctl s"
proof (induction eps arbitrary: s)
  case Nil then show ?case by simp
next
  case (Cons ep eps)
  show ?case
  proof (cases "urljoin e url ep")
    case (Inl err) with Cons.prems show ?thesis by simp
  next
    case (Inr full)
    show ?thesis
    proof (cases "is_valid_url s full")
      case (Inl err) with Cons.prems \<open>urljoin e url ep = Inr full\<close> show ?thesis by simp
    next
      case (Inr ok)
      with Cons.prems \<open>urljoin e url ep = Inr full\<close>
      have "api_loop e url eps (if ok then process_endpoint full s else s) = (r, s')" by simp
      from Cons.IH [OF this] show ?thesis by (simp split: if_splits)
    qed
  qed
qed

lemma ctl_analyze_js_try: "analyze_js_try e url s = (r, s') \<Longrightarrow> ctl s' = ctl s"
  unfolding analyze_js_try_def
  by (auto split: option.splits prod.splits sum.splits dest: ctl_api_loop)

lemma ctl_analyze_js: "analyze_js e url s = (fns, s') \<Longrightarrow> ctl s' = ctl s"
  unfolding analyze_js_def
  by (auto split: prod.splits sum.splits dest: ctl_analyze_js_try)

lemma ctl_analyze_js_any: "analyze_js_any e v s = (fns, s') \<Longrightarrow> ctl s' = ctl s"
  unfolding analyze_js_any_def
  by (auto split: pyval.splits dest: ctl_analyze_js)

lemma ctl_crawl_scripts: "crawl_scripts e url scripts s = (r, s') \<Longrightarrow> ctl s' = ctl s"
proof (induction scripts arbitrary: s)
  case Nil then show ?case by simp
next
  case (Cons sc scripts)
  show ?case
  proof (cases "child_tag sc ''src''")
    case None with Cons show ?thesis by simp
  next
    case (Some src)
    show ?thesis
    proof (cases "urljoin_any e url (TagV src)")
      case (Inl err) with Some Cons.prems show ?thesis by simp
    next
      case (Inr js)
      obtain fns s1 where a: "analyze_js_any e js s = (fns, s1)" by (cases "analyze_js_any e js s")
      with Some Inr Cons.prems
      have "crawl_scripts e url scripts (merge_functions fns s1) = (r, s')" by simp
      from Cons.IH [OF this] ctl_analyze_js_any [OF a] show ?thesis by simp
    qed
  qed
qed

lemma enqueue_link_queue:
  "queue (enqueue_link d l s) = queue s \<or> queue (enqueue_link d l s) = queue s @ [(l, d + 1)]"
  by (simp add: enqueue_link_def Let_def ctl_fields [OF ctl_process_endpoint])

lemma enqueue_link_fixed [simp]:
  "max_depth (enqueue_link d l s) = max_depth s" "stop_event (enqueue_link d l s) = stop_event s"
  "visited_urls (enqueue_link d l s) = visited_urls s" "domain (enqueue_link d l s) = domain s"
  "base_url (enqueue_link d l s) = base_url s"
  "progress_crawled (enqueue_link d l s) = progress_crawled s"
  "progress_depth (enqueue_link d l s) = progress_depth s"
  by (simp_all add: enqueue_link_def Let_def ctl_fields [OF ctl_process_endpoint])

lemma fold_enqueue_fixed [simp]:
  "max_depth (fold (enqueue_link d) ls s) = max_depth s"
  "stop_event (fold (enqueue_link d) ls s) = stop_event s"
  "visited_urls (fold (enqueue_link d) ls s) = visited_urls s"
  "domain (fold (enqueue_link d) ls s) = domain s"
  "base_url (fold (enqueue_link d) ls s) = base_url s"
  "progress_crawled (fold (enqueue_link d) ls s) = progress_crawled s"
  "progress_depth (fold (enqueue_link d) ls s) = progress_depth s"
  by (induction ls arbitrary: s) simp_all

lemma fold_enqueue_queue:
  "\<exists>new. queue (fold (enqueue_link d) ls s) = queue s @ map (\<lambda>l. (l, d + 1)) new \<and> set new \<subseteq> set ls"
proof (induction ls arbitrary: s)
  case Nil show ?case by (rule exI [of _ "[]"]) simp
next
  case (Cons l ls)
  from Cons.IH [of "enqueue_link d l s"] obtain new where
    n: "queue (fold (enqueue_link d) ls (enqueue_link d l s)) = queue (enqueue_link d l s) @ map (\<lambda>l. (l, d + 1)) new"
       "set new \<subseteq> set ls" by blast
  from enqueue_link_queue [of d l s] show ?case
  proof
    assume "queue (enqueue_link d l s) = queue s"
    with n show ?thesis by (intro exI [of _ new]) auto
  next
    assume "queue (enqueue_link d l s) = queue s @ [(l, d + 1)]"
    with n show ?thesis by (intro exI [of _ "l # new"]) auto
  qed
qed

lemma crawl_try_ctl:
  assumes "crawl_try e url d s = (r, s')"
  shows "max_depth s' = max_depth s \<and> stop_event s' = stop_event s \<and> visited_urls s' = visited_urls s
    \<and> domain s' = domain s \<and> base_url s' = base_url s
    \<and> progress_crawled s' = progress_crawled s \<and> progress_depth s' = progress_depth s"
proof (cases "http_get e url")
  case None with assms show ?thesis by (simp add: crawl_try_def)
next
  case (Some page)
  show ?thesis
  proof (cases "find_links (process_endpoint url s) e (parse_html e page) url")
    case (Inl err)
    with Some assms have "s' = process_endpoint url s" by (simp add: crawl_try_def Let_def)
    then show ?thesis by (simp add: ctl_fields [OF ctl_process_endpoint])
  next
    case (Inr links)
    with Some assms have
      "crawl_scripts e url (find_all [''script''] (parse_html e page))
         (fold (enqueue_link d) links (process_endpoint url s)) = (r, s')"
      by (simp add: crawl_try_def Let_def)
    from ctl_fields [OF ctl_crawl_scripts [OF this]]
    show ?thesis by (simp add: ctl_fields [OF ctl_process_endpoint])
  qed
qed

lemma crawl_try_queue:
  assumes "crawl_try e url d s = (r, s')"
  shows "\<exists>new. queue s' = queue s @ map (\<lambda>l. (l, d + 1)) new"
proof (cases "http_get e url")
  case None with assms show ?thesis by (simp add: crawl_try_def)
next
  case (Some page)
  show ?thesis
  proof (cases "find_links (process_endpoint url s) e (parse_html e page) url")
    case (Inl err)
    with Some assms have "s' = process_endpoint url s" by (simp add: crawl_try_def Let_def)
    then show ?thesis by (simp add: ctl_fields [OF ctl_process_endpoint])
  next
    case (Inr links)
    with Some assms have
      "crawl_scripts e url (find_all [''script''] (parse_html e page))
         (fold (enqueue_link d) links (process_endpoint url s)) = (r, s')"
      by (simp add: crawl_try_def Let_def)
    from ctl_fields(5) [OF ctl_crawl_scripts [OF this]]
      fold_enqueue_queue [of d links "process_endpoint url s"]
    show ?thesis by (auto simp: ctl_fields [OF ctl_process_endpoint])
  qed
qed

termination crawl_loop
proof (relation "inv_image (mult {(a, b). a < b})
     (\<lambda>(e, s). mset (map (weight (max_depth s)) (queue s)))")
  show "wf (inv_image (mult {(a::nat, b). a < b})
     (\<lambda>(e, s). mset (map (weight (max_depth s)) (queue s))))"
    using wf_less by (intro wf_inv_image wf_mult) simp
next
  fix e :: env and self :: crawler
  assume a: "queue self \<noteq> [] \<and> \<not> stop_event self"
  then obtain url d q where q: "queue self = (url, d) # q" by (cases "queue self") auto
  let ?m = "max_depth self"
  let ?I = "mset (map (weight ?m) q)"
  have "max_depth (crawl_iteration e self) = ?m \<and>
        (\<exists>K. mset (map (weight ?m) (queue (crawl_iteration e self))) = ?I + K
           \<and> (\<forall>k \<in># K. k < weight ?m (url, d)))"
  proof (cases "url \<in> visited_urls self \<or> d > ?m")
    case True
    then have "crawl_iteration e self = self\<lparr>queue := q\<rparr>"
      using q by (auto simp: crawl_iteration_def Let_def)
    then show ?thesis by (intro conjI exI [of _ "{#}"]) auto
  next
    case False
    let ?s1 = "self\<lparr>queue := q, visited_urls := insert url (visited_urls self),
                    progress_depth := d, progress_crawled := progress_crawled self + 1,
                    progress_queued := int (length q)\<rparr>"
    obtain r s' where t: "crawl_try e url d ?s1 = (r, s')" by (cases "crawl_try e url d ?s1")
    have it: "crawl_iteration e self = s'"
      using q False t by (simp add: crawl_iteration_def Let_def)
    from crawl_try_queue [OF t] obtain new where
      n: "queue s' = q @ map (\<lambda>l. (l, d + 1)) new" by auto
    have w: "weight ?m (l, d + 1) < weight ?m (url, d)" for l
      using False by (simp add: weight_def)
    show ?thesis
      unfolding it using crawl_try_ctl [OF t] n w
      by (intro conjI exI [of _ "mset (map (weight ?m) (map (\<lambda>l. (l, d + 1)) new))"]) auto
  qed
  then obtain K where
    m: "max_depth (crawl_iteration e self) = ?m"
    and K: "mset (map (weight ?m) (queue (crawl_iteration e self))) = ?I + K"
           "\<forall>k \<in># K. k < weight ?m (url, d)" by blast
  have "(?I + K, ?I + {#weight ?m (url, d)#}) \<in> mult {(a, b). a < b}"
    by (rule one_step_implies_mult) (use K in auto)
  then show "((e, crawl_iteration e self), (e, self)) \<in> inv_image (mult {(a, b). a < b})
     (\<lambda>(e, s). mset (map (weight (max_depth s)) (queue s)))"
    using q m K by simp
qed


declare crawl_loop.simps [simp del]

lemma crawl_iteration_skip:
  assumes "queue s = (url, d) # q" "url \<in> visited_urls s \<or> max_depth s < d"
  shows "crawl_iteration e s = s\<lparr>queue := q\<rparr>"
  using assms by (auto simp: crawl_iteration_def Let_def)

lemma crawl_iteration_process:
  assumes "queue s = (url, d) # q" "url \<notin> visited_urls s" "d \<le> max_depth s"
  shows "visited_urls (crawl_iteration e s) = insert url (visited_urls s)
    \<and> progress_crawled (crawl_iteration e s) = progress_crawled s + 1
    \<and> progress_depth (crawl_iteration e s) = d
    \<and> (\<exists>new. queue (crawl_iteration e s) = q @ map (\<lambda>l. (l, d + 1)) new)
    \<and> max_depth (crawl_iteration e s) = max_depth s
    \<and> stop_event (crawl_iteration e s) = stop_event s
    \<and> domain (crawl_iteration e s) = domain s
    \<and> base_url (crawl_iteration e s) = base_url s"
proof -
  let ?s1 = "s\<lparr>queue := q, visited_urls := insert url (visited_urls s),
                progress_depth := d, progress_crawled := progress_crawled s + 1,
                progress_queued := int (length q)\<rparr>"
  obtain r s' where t: "crawl_try e url d ?s1 = (r, s')" by (cases "crawl_try e url d ?s1")
  have it: "crawl_iteration e s = s'"
    using assms t by (simp add: crawl_iteration_def Let_def)
  from crawl_try_queue [OF t] crawl_try_ctl [OF t] show ?thesis
    unfolding it by simp
qed

lemma crawl_loop_rule:
  assumes "P s"
    and "\<And>s. P s \<Longrightarrow> queue s \<noteq> [] \<Longrightarrow> \<not> stop_event s \<Longrightarrow> P (crawl_iteration e s)"
  shows "P (crawl_loop e s)"
  using assms
proof (induction e s rule: crawl_loop.induct)
  case (1 e self)
  note step = "1.prems"(2)
  show ?case
  proof (cases "queue self \<noteq> [] \<and> \<not> stop_event self")
    case True
    have "P (crawl_iteration e self)"
      by (rule step) (use True "1.prems"(1) in simp_all)
    then have "P (crawl_loop e (crawl_iteration e self))"
      using step by (rule "1.IH" [OF True])
    moreover have "crawl_loop e self = crawl_loop e (crawl_iteration e self)"
      using True by (subst crawl_loop.simps) simp
    ultimately show ?thesis by simp
  next
    case False
    have "crawl_loop e self = self"
      using False by (subst crawl_loop.simps) auto
    with "1.prems"(1) show ?thesis by simp
  qed
qed

lemma crawl_loop_end: "queue (crawl_loop e s) = [] \<or> stop_event (crawl_loop e s)"
proof (induction e s rule: crawl_loop.induct)
  case (1 e self)
  show ?case
  proof (cases "queue self \<noteq> [] \<and> \<not> stop_event self")
    case True
    from "1.IH" [OF True] True show ?thesis by (subst crawl_loop.simps, subst crawl_loop.simps) simp
  next
    case False
    then show ?thesis by (subst crawl_loop.simps, subst crawl_loop.simps) auto
  qed
qed

section \<open>Canonical keys\<close>

lemma split_not_Nil: "split sep s \<noteq> []"
  by (induction s) (auto split: list.splits)

lemma first_piece_takeWhile: "first_piece sep s = takeWhile (\<lambda>c. c \<noteq> sep) s"
proof (induction s)
  case Nil
  show ?case by (simp add: first_piece_def)
next
  case (Cons c cs)
  then show ?case
    using split_not_Nil [of sep cs]
    by (cases "split sep cs") (auto simp: first_piece_def)
qed

lemma clean_url_takeWhile:
  "clean_url url = takeWhile (\<lambda>c. c \<noteq> CHR ''?'' \<and> c \<noteq> CHR ''#'') url"
proof -
  have "takeWhile (\<lambda>c. c \<noteq> CHR ''#'') (takeWhile (\<lambda>c. c \<noteq> CHR ''?'') url)
      = takeWhile (\<lambda>c. c \<noteq> CHR ''?'' \<and> c \<noteq> CHR ''#'') url"
    by (induction url) auto
  then show ?thesis
    by (simp add: clean_url_def first_piece_takeWhile)
qed

lemma clean_url_no_delims:
  "CHR ''?'' \<notin> set (clean_url url) \<and> CHR ''#'' \<notin> set (clean_url url)"
  unfolding clean_url_takeWhile by (induction url) auto

text \<open>
  C8.  Canonicalization is idempotent: cutting a URL at its first \<^verbatim>\<open>?\<close> and then at
  its first \<^verbatim>\<open>#\<close> leaves a string holding neither, which the same cut returns
  unchanged.
\<close>

theorem clean_url_idempotent: "clean_url (clean_url u) = clean_url u"
proof -
  have "\<forall>c \<in> set (clean_url u). c \<noteq> CHR ''?'' \<and> c \<noteq> CHR ''#''"
    using clean_url_no_delims [of u] by auto
  then have "takeWhile (\<lambda>c. c \<noteq> CHR ''?'' \<and> c \<noteq> CHR ''#'') (clean_url u) = clean_url u"
    by (simp add: takeWhile_eq_all_conv)
  then show ?thesis
    by (simp add: clean_url_takeWhile [of "clean_url u"])
qed

section \<open>Evaluation on concrete inputs\<close>

lemmas char_ev = lower_def is_upper_def code_def is_word_def is_lower_def is_digit_def is_space_def
  is_ascii_alpha_def

lemmas re_ev = re_search_def eq_char_def word_before_def word_after_def re_findall_def
  first_match_def

lemmas url_ev = urlparse_def split_scheme_def url_prep_def netloc_of_def unbalanced_def
  scheme_chars_def

lemmas classify_ev = classify_endpoint_def backend_patterns_def page_patterns_def

lemmas crawl_ev = init_def crawl_def crawl_iteration_def crawl_try_def find_links_def attr_of_def
  get_attr_def child_tag_def enqueue_link_def process_endpoint_def print_finding_def Let_def
  urljoin_def is_valid_url_def crawl_loop.simps one_page_def

lemma classify_examples:
  "classify_endpoint ''http://h/'' = ''unknown''"
  "classify_endpoint ''http://h/p'' = ''html''"
  "classify_endpoint ''http://h/p?action=x'' = ''backend''"
  by (simp_all add: classify_ev re_ev char_ev)

lemma urlparse_examples:
  "urlparse ''http://h/'' d = Inr \<lparr>scheme = ''http'', netloc = ''h''\<rparr>"
  "urlparse ''http://h/p'' d = Inr \<lparr>scheme = ''http'', netloc = ''h''\<rparr>"
  "urlparse ''http://h/p?action=x'' d = Inr \<lparr>scheme = ''http'', netloc = ''h''\<rparr>"
  by (simp_all add: url_ev char_ev)

lemma clean_url_examples:
  "clean_url ''http://h/'' = ''http://h/''"
  "clean_url ''http://h/p'' = ''http://h/p''"
  "clean_url ''http://h/p?action=x'' = ''http://h/p''"
  by (simp_all add: clean_url_def first_piece_def)

section \<open>Findings per canonical key\<close>

lemma fold_process_endpoint_html:
  "found_html_pages (fold process_endpoint us s)
     = found_html_pages s \<union> clean_url ` {u \<in> set us. classify_endpoint u = ''html''}"
  by (induction us arbitrary: s) (auto simp: process_endpoint_def Let_def print_finding_def)

lemma fold_process_endpoint_backend:
  "found_backend_endpoints (fold process_endpoint us s)
     = found_backend_endpoints s \<union> clean_url ` {u \<in> set us. classify_endpoint u = ''backend''}"
  by (induction us arbitrary: s) (auto simp: process_endpoint_def Let_def print_finding_def)

text \<open>
  C1, as stated, fails.  The seed \<^verbatim>\<open>http://h/\<close> links to \<^verbatim>\<open>http://h/p\<close>, an
  extensionless path and so a page, and to \<^verbatim>\<open>http://h/p?action=x\<close>, which the query
  rule makes a backend endpoint.  Both have the canonical key \<^verbatim>\<open>http://h/p\<close>, and after
  the crawl that key is in both sets: \<^verbatim>\<open>process_endpoint\<close> looks the key up only in
  the set of the URL's own category.
\<close>

theorem key_in_both_sets:
  "case init ''http://h/'' 1 of
     Inl err \<Rightarrow> False
   | Inr s0 \<Rightarrow>
       ''http://h/p'' \<in> found_html_pages (crawl (one_page ''http://h/'' two_links) s0) \<and>
       ''http://h/p'' \<in> found_backend_endpoints (crawl (one_page ''http://h/'' two_links) s0)"
  by (simp add: classify_examples urlparse_examples clean_url_examples two_links_def crawl_ev)

text \<open>
  C1, amended.  After any sequence of calls of \<^verbatim>\<open>process_endpoint\<close>, the set of html
  pages has gained exactly the canonical keys of the URLs classified html, and the set
  of backend endpoints exactly the canonical keys of the URLs classified backend.  So a
  key is in both sets exactly when two URLs that share it were classified differently,
  and the sets are disjoint otherwise.
\<close>

theorem findings_per_category:
  "found_html_pages (fold process_endpoint us s)
     = found_html_pages s \<union> clean_url ` {u \<in> set us. classify_endpoint u = ''html''} \<and>
   found_backend_endpoints (fold process_endpoint us s)
     = found_backend_endpoints s \<union> clean_url ` {u \<in> set us. classify_endpoint u = ''backend''}"
  using fold_process_endpoint_html [of us s] fold_process_endpoint_backend [of us s] by simp

section \<open>The depth bound\<close>

lemma init_example: "init ''http://h/'' d = Inr (seed_crawler d)"
  by (simp add: init_def urlparse_examples seed_crawler_def)

lemma seed_only_step:
  assumes "seed_only u s" "queue s \<noteq> []"
  shows "seed_only u (crawl_iteration e s)"
proof -
  obtain url d q where q: "queue s = (url, d) # q" using assms(2) by (cases "queue s") auto
  show ?thesis
  proof (cases "url \<in> visited_urls s \<or> max_depth s < d")
    case True
    from crawl_iteration_skip [OF q True, of e] have it: "crawl_iteration e s = s\<lparr>queue := q\<rparr>" .
    from assms(1) q True show ?thesis unfolding it seed_only_def by auto
  next
    case False
    then have f: "url \<notin> visited_urls s" "d \<le> max_depth s" by auto
    from assms(1) q f have ud: "url = u" "d = 0" "visited_urls s = {}" "progress_crawled s = 0" "q = []"
      unfolding seed_only_def by auto
    from crawl_iteration_process [OF q f, of e] assms(1) ud q
    show ?thesis unfolding seed_only_def by (auto simp: list_all_iff)
  qed
qed

lemma depth_zero:
  assumes "init u 0 = Inr s0"
  shows "visited_urls (crawl e s0) = {u} \<and> progress_crawled (crawl e s0) = 1"
proof -
  from assms have s0: "seed_only u s0"
    by (auto simp: init_def seed_only_def split: sum.splits)
  have l: "seed_only u (crawl_loop e s0)"
    by (rule crawl_loop_rule [where P = "seed_only u", OF s0]) (rule seed_only_step)
  moreover from this crawl_loop_end [of e s0] have "queue (crawl_loop e s0) = []"
    by (auto simp: seed_only_def)
  ultimately show ?thesis by (auto simp: seed_only_def crawl_def)
qed


text \<open>
  C3.  An entry taken from the frontier whose depth is greater than the maximum depth
  is only removed: it is not marked visited, nothing is fetched, no counter changes.
  So an entry is processed only if its depth is at most the maximum.  With maximum
  depth 0 the crawl processes the seed and nothing else: when it returns, the seed is
  the one visited URL and one entry was crawled.
\<close>

theorem depth_guard:
  "(queue s = (url, d) # q \<and> max_depth s < d \<longrightarrow> crawl_iteration e s = s\<lparr>queue := q\<rparr>) \<and>
   (queue s = (url, d) # q \<and> visited_urls (crawl_iteration e s) \<noteq> visited_urls s
      \<longrightarrow> d \<le> max_depth s) \<and>
   (init u 0 = Inr s0 \<longrightarrow> visited_urls (crawl e s0) = {u} \<and> progress_crawled (crawl e s0) = 1)"
proof (intro conjI impI)
  assume a: "queue s = (url, d) # q \<and> max_depth s < d"
  then show "crawl_iteration e s = s\<lparr>queue := q\<rparr>"
    using crawl_iteration_skip [of s url d q e] by simp
next
  assume a: "queue s = (url, d) # q \<and> visited_urls (crawl_iteration e s) \<noteq> visited_urls s"
  show "d \<le> max_depth s"
  proof (rule ccontr)
    assume "\<not> d \<le> max_depth s"
    then have "crawl_iteration e s = s\<lparr>queue := q\<rparr>"
      using a crawl_iteration_skip [of s url d q e] by simp
    with a show False by simp
  qed
next
  assume "init u 0 = Inr s0"
  then show "visited_urls (crawl e s0) = {u}" using depth_zero [of u s0 e] by simp
next
  assume "init u 0 = Inr s0"
  then show "progress_crawled (crawl e s0) = 1" using depth_zero [of u s0 e] by simp
qed

theorem depth_guard_witness:
  "crawl_iteration (one_page ''http://h/'' two_links)
     ((seed_crawler 0)\<lparr>queue := [(''http://h/p'', 1)]\<rparr>) = (seed_crawler 0)\<lparr>queue := []\<rparr> \<and>
   visited_urls (crawl (one_page ''http://h/'' two_links) (seed_crawler 0)) = {''http://h/''} \<and>
   progress_crawled (crawl (one_page ''http://h/'' two_links) (seed_crawler 0)) = 1"
proof -
  have a: "queue ((seed_crawler 0)\<lparr>queue := [(''http://h/p'', 1)]\<rparr>) = (''http://h/p'', 1) # [] \<and>
           max_depth ((seed_crawler 0)\<lparr>queue := [(''http://h/p'', 1)]\<rparr>) < 1"
    by (simp add: seed_crawler_def)
  from depth_guard [of "(seed_crawler 0)\<lparr>queue := [(''http://h/p'', 1)]\<rparr>" "''http://h/p''" 1 "[]"
      "one_page ''http://h/'' two_links" "''http://h/''" "seed_crawler 0"] a init_example [of 0]
  show ?thesis by simp
qed

section \<open>Parsing a canonical key\<close>

lemma clean_url_keeps: "clean_url u = takeWhile keeps u"
  by (simp add: clean_url_takeWhile keeps_def [abs_def])

lemma dropWhile_takeWhile_commute:
  "(\<And>x. P x \<Longrightarrow> Q x) \<Longrightarrow> dropWhile P (takeWhile Q xs) = takeWhile Q (dropWhile P xs)"
  by (induction xs) auto

lemma filter_takeWhile_commute:
  "(\<And>x. \<not> F x \<Longrightarrow> Q x) \<Longrightarrow> filter F (takeWhile Q xs) = takeWhile Q (filter F xs)"
  by (induction xs) auto

lemma url_prep_clean: "url_prep (takeWhile keeps u) = takeWhile keeps (url_prep u)"
proof -
  have a: "code c \<le> 32 \<Longrightarrow> keeps c" for c
    by (auto simp: keeps_def code_def)
  have b: "\<not> (code c \<noteq> 9 \<and> code c \<noteq> 13 \<and> code c \<noteq> 10) \<Longrightarrow> keeps c" for c
    by (auto simp: keeps_def code_def)
  show ?thesis
    unfolding url_prep_def
    by (simp add: dropWhile_takeWhile_commute [of "\<lambda>c. code c \<le> 32" keeps, OF a]
        filter_takeWhile_commute [of "\<lambda>c. code c \<noteq> 9 \<and> code c \<noteq> 13 \<and> code c \<noteq> 10" keeps, OF b])
qed

lemma scheme_char_keeps: "x \<in> set scheme_chars \<Longrightarrow> keeps x"
  by (auto simp: scheme_chars_def keeps_def)

lemma split_scheme_cases:
  "split_scheme v d = (if has_scheme v
     then (map lower (takeWhile (\<lambda>c. c \<noteq> CHR '':'') v), drop (Suc (length (takeWhile (\<lambda>c. c \<noteq> CHR '':'') v))) v)
     else (d, v))"
  by (auto simp: split_scheme_def has_scheme_def split: list.splits)

lemma colon_decomp:
  assumes "CHR '':'' \<in> set v"
  shows "v = takeWhile (\<lambda>c. c \<noteq> CHR '':'') v @ CHR '':'' # drop (Suc (length (takeWhile (\<lambda>c. c \<noteq> CHR '':'') v))) v"
  using assms by (induction v) auto

lemma has_scheme_clean:
  assumes "has_scheme v"
  shows "has_scheme (takeWhile keeps v)"
    and "takeWhile (\<lambda>c. c \<noteq> CHR '':'') (takeWhile keeps v) = takeWhile (\<lambda>c. c \<noteq> CHR '':'') v"
    and "drop (Suc (length (takeWhile (\<lambda>c. c \<noteq> CHR '':'') v))) (takeWhile keeps v)
       = takeWhile keeps (drop (Suc (length (takeWhile (\<lambda>c. c \<noteq> CHR '':'') v))) v)"
proof -
  let ?pre = "takeWhile (\<lambda>c. c \<noteq> CHR '':'') v"
  let ?rest = "drop (Suc (length ?pre)) v"
  from assms have c: "CHR '':'' \<in> set v" and sc: "list_all (\<lambda>x. x \<in> set scheme_chars) ?pre"
    and ne: "?pre \<noteq> []"
    by (auto simp: has_scheme_def split: list.splits)
  have v: "v = ?pre @ CHR '':'' # ?rest" by (rule colon_decomp [OF c])
  have k: "\<forall>x \<in> set ?pre. keeps x" using sc scheme_char_keeps by (auto simp: list_all_iff)
  have "takeWhile keeps (?pre @ CHR '':'' # ?rest) = ?pre @ CHR '':'' # takeWhile keeps ?rest"
    using k by (simp add: takeWhile_append2 keeps_def)
  with v have w: "takeWhile keeps v = ?pre @ CHR '':'' # takeWhile keeps ?rest" by simp
  have "\<forall>x \<in> set ?pre. x \<noteq> CHR '':''" by (auto dest: set_takeWhileD)
  then have p: "takeWhile (\<lambda>c. c \<noteq> CHR '':'') (?pre @ CHR '':'' # takeWhile keeps ?rest) = ?pre"
    by (simp add: takeWhile_append2)
  show 2: "takeWhile (\<lambda>c. c \<noteq> CHR '':'') (takeWhile keeps v) = ?pre"
    using w p by simp
  show "has_scheme (takeWhile keeps v)"
    using assms w 2 by (auto simp: has_scheme_def split: list.splits)
  show "drop (Suc (length ?pre)) (takeWhile keeps v) = takeWhile keeps ?rest"
    by (subst w) simp
qed

lemma takeWhile_prefix_stop:
  "x \<in> set (takeWhile Q v) \<Longrightarrow> \<not> P x \<Longrightarrow> takeWhile P (takeWhile Q v) = takeWhile P v"
  by (induction v) (auto split: if_splits)

lemma has_scheme_clean_conv:
  assumes "has_scheme (takeWhile keeps v)"
  shows "has_scheme v"
proof -
  let ?w = "takeWhile keeps v"
  from assms have c: "CHR '':'' \<in> set ?w"
    by (auto simp: has_scheme_def split: list.splits)
  have t: "takeWhile (\<lambda>c. c \<noteq> CHR '':'') ?w = takeWhile (\<lambda>c. c \<noteq> CHR '':'') v"
    by (rule takeWhile_prefix_stop [OF c]) simp
  have "CHR '':'' \<in> set v" using c by (auto dest: set_takeWhileD)
  with assms t show ?thesis by (auto simp: has_scheme_def split: list.splits)
qed

lemma split_scheme_clean:
  "split_scheme (takeWhile keeps v) d = (fst (split_scheme v d), takeWhile keeps (snd (split_scheme v d)))"
proof (cases "has_scheme v")
  case True
  from has_scheme_clean [OF True] True show ?thesis by (simp add: split_scheme_cases)
next
  case False
  then have "\<not> has_scheme (takeWhile keeps v)" using has_scheme_clean_conv by blast
  with False show ?thesis by (simp add: split_scheme_cases)
qed

lemma takeWhile_takeWhile_imp:
  "(\<And>x. N x \<Longrightarrow> Q x) \<Longrightarrow> takeWhile N (takeWhile Q xs) = takeWhile N xs"
  by (induction xs) auto

lemma netloc_of_clean: "netloc_of (takeWhile keeps r) = netloc_of r"
proof (cases r)
  case Nil then show ?thesis by (simp add: netloc_of_def)
next
  case (Cons a r1)
  show ?thesis
  proof (cases r1)
    case Nil with Cons show ?thesis by (simp add: netloc_of_def)
  next
    case (Cons b r2)
    have "takeWhile (\<lambda>c. c \<noteq> CHR ''/'' \<and> c \<noteq> CHR ''?'' \<and> c \<noteq> CHR ''#'') (takeWhile keeps r2)
        = takeWhile (\<lambda>c. c \<noteq> CHR ''/'' \<and> c \<noteq> CHR ''?'' \<and> c \<noteq> CHR ''#'') r2"
      by (rule takeWhile_takeWhile_imp) (simp add: keeps_def)
    with Cons \<open>r = a # r1\<close> show ?thesis by (auto simp: netloc_of_def keeps_def)
  qed
qed

lemma urlparse_clean_url: "urlparse (clean_url u) d = urlparse u d"
  by (simp add: urlparse_def clean_url_keeps url_prep_clean split_scheme_clean netloc_of_clean
      split: prod.splits)

lemma is_valid_url_clean: "is_valid_url s (clean_url u) = is_valid_url s u"
  by (simp add: is_valid_url_def urlparse_clean_url)

section \<open>Only valid URLs are stored\<close>

lemma is_valid_url_iff: "is_valid_url s k = Inr True \<longleftrightarrow> valid_for (domain s) k"
  by (auto simp: is_valid_url_def valid_for_def split: sum.splits)

lemma is_valid_url_Inr: "is_valid_url s k = Inr ok \<Longrightarrow> ok = valid_for (domain s) k"
  by (auto simp: is_valid_url_def valid_for_def split: sum.splits)

lemma valid_for_clean: "valid_for host (clean_url u) = valid_for host u"
  by (simp add: valid_for_def urlparse_clean_url)

lemma store_ok_process_endpoint:
  "valid_for host u \<Longrightarrow> store_ok host s \<Longrightarrow> store_ok host (process_endpoint u s)"
  by (auto simp: store_ok_def process_endpoint_def Let_def print_finding_def valid_for_clean)

lemma store_ok_fold_print: "store_ok host (fold (\<lambda>fn s. print_finding t fn s) fns s) = store_ok host s"
  by (induction fns arbitrary: s) (simp_all add: store_ok_def print_finding_def)

lemma store_ok_merge_functions: "store_ok host (merge_functions fns s) = store_ok host s"
  by (simp add: merge_functions_def store_ok_fold_print) (simp add: store_ok_def)

lemma store_ok_api_loop:
  "api_loop e url eps s = (r, s') \<Longrightarrow> store_ok host s \<Longrightarrow> store_ok host s'"
proof (induction eps arbitrary: s)
  case Nil then show ?case by simp
next
  case (Cons ep eps)
  show ?case
  proof (cases "urljoin e url ep")
    case (Inl err) with Cons.prems show ?thesis by simp
  next
    case (Inr full)
    show ?thesis
    proof (cases "is_valid_url s full")
      case (Inl err) with Cons.prems \<open>urljoin e url ep = Inr full\<close> show ?thesis by simp
    next
      case (Inr ok)
      with Cons.prems \<open>urljoin e url ep = Inr full\<close>
      have a: "api_loop e url eps (if ok then process_endpoint full s else s) = (r, s')" by simp
      have "ok \<Longrightarrow> valid_for host full"
        using is_valid_url_Inr [OF Inr] Cons.prems(2) by (simp add: store_ok_def)
      then have "store_ok host (if ok then process_endpoint full s else s)"
        using Cons.prems(2) by (simp add: store_ok_process_endpoint)
      from Cons.IH [OF a this] show ?thesis .
    qed
  qed
qed

lemma store_ok_analyze_js: "analyze_js e url s = (fns, s') \<Longrightarrow> store_ok host s \<Longrightarrow> store_ok host s'"
  unfolding analyze_js_def analyze_js_try_def
  by (auto split: option.splits prod.splits sum.splits dest: store_ok_api_loop)

lemma store_ok_analyze_js_any:
  "analyze_js_any e v s = (fns, s') \<Longrightarrow> store_ok host s \<Longrightarrow> store_ok host s'"
  unfolding analyze_js_any_def by (auto split: pyval.splits dest: store_ok_analyze_js)

lemma store_ok_crawl_scripts:
  "crawl_scripts e url scripts s = (r, s') \<Longrightarrow> store_ok host s \<Longrightarrow> store_ok host s'"
proof (induction scripts arbitrary: s)
  case Nil then show ?case by simp
next
  case (Cons sc scripts)
  show ?case
  proof (cases "child_tag sc ''src''")
    case None with Cons show ?thesis by simp
  next
    case (Some src)
    show ?thesis
    proof (cases "urljoin_any e url (TagV src)")
      case (Inl err) with Some Cons.prems show ?thesis by simp
    next
      case (Inr js)
      obtain fns s1 where a: "analyze_js_any e js s = (fns, s1)" by (cases "analyze_js_any e js s")
      with Some Inr Cons.prems
      have b: "crawl_scripts e url scripts (merge_functions fns s1) = (r, s')" by simp
      have "store_ok host (merge_functions fns s1)"
        using store_ok_analyze_js_any [OF a Cons.prems(2)] by (simp add: store_ok_merge_functions)
      from Cons.IH [OF b this] show ?thesis .
    qed
  qed
qed

lemma find_links_loop_valid:
  "find_links_loop self e base els acc = Inr links \<Longrightarrow>
   \<forall>l \<in> set acc. valid_for (domain self) l \<Longrightarrow> \<forall>l \<in> set links. valid_for (domain self) l"
proof (induction els arbitrary: acc)
  case Nil then show ?case by simp
next
  case (Cons el els)
  show ?case
  proof (cases "attr_of (tag_name el)")
    case None with Cons show ?thesis by simp
  next
    case (Some attr)
    show ?thesis
    proof (cases "urljoin e base (get_attr el attr [])")
      case (Inl err) with Some Cons.prems show ?thesis by simp
    next
      case (Inr url)
      show ?thesis
      proof (cases "is_valid_url self url")
        case (Inl err) with Some \<open>urljoin e base (get_attr el attr []) = Inr url\<close> Cons.prems
        show ?thesis by simp
      next
        case (Inr ok)
        with Some \<open>urljoin e base (get_attr el attr []) = Inr url\<close> Cons.prems
        have a: "find_links_loop self e base els (if ok then acc @ [url] else acc) = Inr links" by simp
        have "\<forall>l \<in> set (if ok then acc @ [url] else acc). valid_for (domain self) l"
          using is_valid_url_Inr [OF Inr] Cons.prems(2) by auto
        from Cons.IH [OF a this] show ?thesis .
      qed
    qed
  qed
qed

lemma find_links_valid:
  assumes "wf_env e" "find_links self e soup base = Inr links"
  shows "\<forall>l \<in> set links. valid_for (domain self) l"
proof -
  from assms(2) obtain ls where
    l: "find_links_loop self e base (find_all [''a'', ''form'', ''frame'', ''iframe'', ''script'', ''link''] soup) [] = Inr ls"
    and r: "links = set_iter e ls"
    by (auto simp: find_links_def split: sum.splits)
  from find_links_loop_valid [OF l] have "\<forall>l \<in> set ls. valid_for (domain self) l" by simp
  with assms(1) r show ?thesis by (simp add: wf_env_def)
qed

lemma store_ok_queue_update [simp]:
  "store_ok host (s\<lparr>queue := q, progress_queued := n\<rparr>) = store_ok host s"
  by (simp add: store_ok_def)

lemma crawl_inv_enqueue:
  "valid_for host l \<Longrightarrow> crawl_inv u host s \<Longrightarrow> crawl_inv u host (enqueue_link d l s)"
  unfolding crawl_inv_def enqueue_link_def Let_def
  by (auto simp: store_ok_process_endpoint ctl_fields [OF ctl_process_endpoint])

lemma crawl_inv_fold_enqueue:
  "\<forall>l \<in> set ls. valid_for host l \<Longrightarrow> crawl_inv u host s \<Longrightarrow> crawl_inv u host (fold (enqueue_link d) ls s)"
  by (induction ls arbitrary: s) (simp_all add: crawl_inv_enqueue)

lemma fetched_valid:
  assumes "seed_ok e u host" "url = u \<or> valid_for host url" "http_get e url = Some page"
  shows "valid_for host url"
proof (cases "valid_for host url")
  case True then show ?thesis .
next
  case False
  with assms(2) have u: "url = u" by simp
  with False assms(1) have h: "http_only e"
    and n: "case urlparse u [] of Inl err \<Rightarrow> False | Inr p \<Rightarrow> netloc p = host"
    by (auto simp: seed_ok_def)
  from h assms(3) u
  have "case urlparse u [] of Inl err \<Rightarrow> False | Inr p \<Rightarrow> scheme p = ''http'' \<or> scheme p = ''https''"
    by (auto simp: http_only_def)
  with n u show ?thesis by (auto simp: valid_for_def split: sum.splits)
qed

lemma crawl_try_inv:
  assumes "wf_env e" "seed_ok e u host" "crawl_inv u host s" "url = u \<or> valid_for host url"
    and t: "crawl_try e url d s = (r, s')"
  shows "crawl_inv u host s'"
proof (cases "http_get e url")
  case None with t assms(3) show ?thesis by (simp add: crawl_try_def)
next
  case (Some page)
  have v: "valid_for host url" by (rule fetched_valid [OF assms(2) assms(4) Some])
  let ?s1 = "process_endpoint url s"
  have i1: "crawl_inv u host ?s1"
    using assms(3) v by (simp add: crawl_inv_def store_ok_process_endpoint ctl_fields [OF ctl_process_endpoint])
  have d1: "domain ?s1 = host" using i1 by (simp add: crawl_inv_def store_ok_def)
  show ?thesis
  proof (cases "find_links ?s1 e (parse_html e page) url")
    case (Inl err)
    with Some t have "s' = ?s1" by (simp add: crawl_try_def Let_def)
    with i1 show ?thesis by simp
  next
    case (Inr links)
    with Some t have c:
      "crawl_scripts e url (find_all [''script''] (parse_html e page))
         (fold (enqueue_link d) links ?s1) = (r, s')"
      by (simp add: crawl_try_def Let_def)
    from find_links_valid [OF assms(1) Inr] d1 have "\<forall>l \<in> set links. valid_for host l" by simp
    from crawl_inv_fold_enqueue [OF this i1]
    have i2: "crawl_inv u host (fold (enqueue_link d) links ?s1)" .
    from store_ok_crawl_scripts [OF c] i2 ctl_fields(5) [OF ctl_crawl_scripts [OF c]]
    show ?thesis by (simp add: crawl_inv_def)
  qed
qed

lemma crawl_iteration_inv:
  assumes "wf_env e" "seed_ok e u host" "crawl_inv u host s"
  shows "crawl_inv u host (crawl_iteration e s)"
proof (cases "queue s")
  case Nil then show ?thesis using assms(3) by (simp add: crawl_iteration_def)
next
  case (Cons x q)
  obtain url d where x: "x = (url, d)" by (cases x)
  have q: "crawl_inv u host (s\<lparr>queue := q\<rparr>)"
    using assms(3) Cons by (auto simp: crawl_inv_def store_ok_def)
  have ux: "url = u \<or> valid_for host url"
    using assms(3) Cons x by (auto simp: crawl_inv_def)
  show ?thesis
  proof (cases "url \<in> visited_urls s \<or> max_depth s < d")
    case True
    with Cons x q show ?thesis by (auto simp: crawl_iteration_def Let_def)
  next
    case False
    let ?s1 = "s\<lparr>queue := q, visited_urls := insert url (visited_urls s),
                  progress_depth := d, progress_crawled := progress_crawled s + 1,
                  progress_queued := int (length q)\<rparr>"
    have i1: "crawl_inv u host ?s1" using q by (auto simp: crawl_inv_def store_ok_def)
    obtain r s' where t: "crawl_try e url d ?s1 = (r, s')" by (cases "crawl_try e url d ?s1")
    have "crawl_iteration e s = s'" using Cons x False t by (simp add: crawl_iteration_def Let_def)
    with crawl_try_inv [OF assms(1,2) i1 ux t] show ?thesis by simp
  qed
qed

lemma crawl_inv_crawl:
  assumes "wf_env e" "seed_ok e u host" "crawl_inv u host s"
  shows "store_ok host (crawl e s)"
proof -
  have "crawl_inv u host (crawl_loop e s)"
    by (rule crawl_loop_rule [where P = "crawl_inv u host", OF assms(3)])
       (rule crawl_iteration_inv [OF assms(1,2)])
  then show ?thesis by (simp add: crawl_inv_def store_ok_def crawl_def)
qed

lemma wf_env_one_page: "wf_env (one_page seed doc)"
  by (simp add: wf_env_def one_page_def)

lemma two_links_found:
  "found_html_pages (crawl (one_page ''http://h/'' two_links) (seed_crawler 1)) = {''http://h/p''} \<and>
   found_backend_endpoints (crawl (one_page ''http://h/'' two_links) (seed_crawler 1)) = {''http://h/p''}"
  by (simp add: classify_examples urlparse_examples clean_url_examples two_links_def seed_crawler_def
      crawl_ev)

text \<open>
  C2.  Every URL in the set of html pages or in the set of backend endpoints of a
  finished crawl has the target domain as its network location and the scheme http or
  https, so a link to another host is never stored.  The links of a page and the
  targets found in a script pass \<^verbatim>\<open>is_valid_url\<close> before they are stored, and the
  canonical key of a URL parses as the URL does.  The seed is stored without that
  test, after it was fetched: the statement holds when the seed passes the test, and
  also when, as with \<^verbatim>\<open>requests\<close>, only http and https URLs can be fetched.
\<close>

theorem stored_urls_valid:
  assumes "wf_env e" "init u d = Inr s0" "http_only e \<or> is_valid_url s0 u = Inr True"
    and "k \<in> found_html_pages (crawl e s0) \<union> found_backend_endpoints (crawl e s0)"
  shows "\<exists>p. urlparse k [] = Inr p \<and> netloc p = domain s0 \<and> (scheme p = ''http'' \<or> scheme p = ''https'')"
proof -
  from assms(2) obtain p0 where p0: "urlparse u [] = Inr p0" and d0: "domain s0 = netloc p0"
    and q0: "queue s0 = [(u, 0)]" and f0: "found_html_pages s0 = {}" "found_backend_endpoints s0 = {}"
    by (auto simp: init_def split: sum.splits)
  have so: "seed_ok e u (domain s0)"
    using assms(3) p0 d0 by (auto simp: seed_ok_def is_valid_url_iff)
  have ci: "crawl_inv u (domain s0) s0"
    using q0 f0 by (simp add: crawl_inv_def store_ok_def)
  from crawl_inv_crawl [OF assms(1) so ci] assms(4)
  have "valid_for (domain s0) k" by (auto simp: store_ok_def)
  then show ?thesis by (auto simp: valid_for_def split: sum.splits)
qed

theorem stored_urls_valid_witness:
  "\<exists>p. urlparse ''http://h/p'' [] = Inr p \<and> netloc p = domain (seed_crawler 1) \<and>
       (scheme p = ''http'' \<or> scheme p = ''https'')"
proof -
  have v: "http_only (one_page ''http://h/'' two_links) \<or>
           is_valid_url (seed_crawler 1) ''http://h/'' = Inr True"
    by (simp add: is_valid_url_def urlparse_examples seed_crawler_def)
  have k: "''http://h/p'' \<in> found_html_pages (crawl (one_page ''http://h/'' two_links) (seed_crawler 1))
             \<union> found_backend_endpoints (crawl (one_page ''http://h/'' two_links) (seed_crawler 1))"
    using two_links_found by simp
  from stored_urls_valid [OF wf_env_one_page init_example v k] show ?thesis .
qed

section \<open>Links of a page\<close>

lemma urljoin_empty: "urljoin e base [] = Inr base"
  by (simp add: urljoin_def)

lemma find_links_loop_mono:
  "find_links_loop self e base els acc = Inr links \<Longrightarrow> set acc \<subseteq> set links"
proof (induction els arbitrary: acc)
  case Nil then show ?case by simp
next
  case (Cons el els)
  show ?case
  proof (cases "attr_of (tag_name el)")
    case None with Cons show ?thesis by simp
  next
    case (Some attr)
    with Cons.prems obtain url ok where
      "find_links_loop self e base els (if ok then acc @ [url] else acc) = Inr links"
      by (auto split: sum.splits)
    from Cons.IH [OF this] show ?thesis by (auto split: if_splits)
  qed
qed

lemma find_links_loop_base:
  assumes "el \<in> set els" "attr_of (tag_name el) = Some attr" "map_of (tag_attrs el) attr = None"
    "is_valid_url self base = Inr True"
    "find_links_loop self e base els acc = Inr links"
  shows "base \<in> set links"
  using assms(1,5)
proof (induction els arbitrary: acc)
  case Nil then show ?case by simp
next
  case (Cons x els)
  show ?case
  proof (cases "x = el")
    case True
    with Cons.prems(2) assms(2,3,4)
    have "find_links_loop self e base els (acc @ [base]) = Inr links"
      by (simp add: get_attr_def urljoin_empty)
    from find_links_loop_mono [OF this] show ?thesis by simp
  next
    case False
    with Cons.prems(1) have m: "el \<in> set els" by simp
    show ?thesis
    proof (cases "attr_of (tag_name x)")
      case None with Cons.prems(2) Cons.IH [OF m] show ?thesis by simp
    next
      case (Some a)
      with Cons.prems(2) obtain url ok where
        "find_links_loop self e base els (if ok then acc @ [url] else acc) = Inr links"
        by (auto split: sum.splits)
      from Cons.IH [OF m this] show ?thesis .
    qed
  qed
qed

lemma find_all_names: "el \<in> set (find_all names soup) \<Longrightarrow> tag_name el \<in> set names"
  by (induction names soup rule: find_all.induct) (auto split: if_splits)

lemma find_links_example:
  "find_links (seed_crawler 1) (one_page ''http://h/'' []) [Tag ''a'' [] []] ''http://h/''
     = Inr [''http://h/'']"
  by (simp add: find_links_def one_page_def attr_of_def get_attr_def urljoin_def is_valid_url_def
      urlparse_examples seed_crawler_def)

text \<open>
  C10.  When \<^verbatim>\<open>find_links\<close> returns, and one of the scanned elements lacks the attribute
  that is read for its kind, and the base URL passes \<^verbatim>\<open>is_valid_url\<close>, then the base
  URL is in the returned set: \<^verbatim>\<open>element.get(attr, '')\<close> is the empty string, and
  \<^verbatim>\<open>urljoin\<close> of the base and the empty string is the base.
\<close>

theorem missing_attribute_adds_base:
  assumes "wf_env e" "find_links self e soup base = Inr links"
    "el \<in> set (find_all [''a'', ''form'', ''frame'', ''iframe'', ''script'', ''link''] soup)"
    "attr_of (tag_name el) = Some attr" "map_of (tag_attrs el) attr = None"
    "is_valid_url self base = Inr True"
  shows "base \<in> set links"
proof -
  from assms(2) obtain ls where
    l: "find_links_loop self e base (find_all [''a'', ''form'', ''frame'', ''iframe'', ''script'', ''link''] soup) [] = Inr ls"
    and r: "links = set_iter e ls"
    by (auto simp: find_links_def split: sum.splits)
  from find_links_loop_base [OF assms(3,4,5,6) l] have "base \<in> set ls" .
  with assms(1) r show ?thesis by (simp add: wf_env_def)
qed

theorem missing_attribute_adds_base_witness: "''http://h/'' \<in> set [''http://h/'']"
proof -
  have v: "is_valid_url (seed_crawler 1) ''http://h/'' = Inr True"
    by (simp add: is_valid_url_def urlparse_examples seed_crawler_def)
  have m: "Tag ''a'' [] [] \<in> set (find_all [''a'', ''form'', ''frame'', ''iframe'', ''script'', ''link'']
             [Tag ''a'' [] []])"
    by simp
  have a: "attr_of (tag_name (Tag ''a'' [] [])) = Some ''href''" by (simp add: attr_of_def)
  have n: "map_of (tag_attrs (Tag ''a'' [] [])) ''href'' = None" by simp
  from missing_attribute_adds_base [OF wf_env_one_page find_links_example m a n v]
  show ?thesis .
qed

section \<open>Notifications\<close>

lemma process_endpoint_new:
  "classify_endpoint u = ''html'' \<Longrightarrow> clean_url u \<notin> found_html_pages s \<Longrightarrow>
   printed (process_endpoint u s) = printed s @ [(''html'', clean_url u)]"
  "classify_endpoint u = ''backend'' \<Longrightarrow> clean_url u \<notin> found_backend_endpoints s \<Longrightarrow>
   printed (process_endpoint u s) = printed s @ [(''backend'', clean_url u)]"
  by (simp_all add: process_endpoint_def Let_def print_finding_def)

lemma process_endpoint_present:
  "classify_endpoint u = ''html'' \<Longrightarrow> clean_url u \<in> found_html_pages s \<Longrightarrow> process_endpoint u s = s"
  "classify_endpoint u = ''backend'' \<Longrightarrow> clean_url u \<in> found_backend_endpoints s \<Longrightarrow>
   process_endpoint u s = s"
  by (simp_all add: process_endpoint_def Let_def)













section \<open>Failure of the script analysis\<close>

lemma grows_refl [simp]: "grows s s"
  by (simp add: grows_def)

lemma grows_process_endpoint: "grows s (process_endpoint u s)"
  by (auto simp: grows_def process_endpoint_def Let_def print_finding_def ctl_def)

lemma grows_trans: "grows a b \<Longrightarrow> grows b c \<Longrightarrow> grows a c"
  by (auto simp: grows_def)

lemma grows_api_loop: "api_loop e url eps s = (r, s') \<Longrightarrow> grows s s'"
proof (induction eps arbitrary: s)
  case Nil then show ?case by simp
next
  case (Cons ep eps)
  show ?case
  proof (cases "urljoin e url ep")
    case (Inl err) with Cons.prems show ?thesis by simp
  next
    case (Inr full)
    show ?thesis
    proof (cases "is_valid_url s full")
      case (Inl err) with Cons.prems \<open>urljoin e url ep = Inr full\<close> show ?thesis by simp
    next
      case (Inr ok)
      with Cons.prems \<open>urljoin e url ep = Inr full\<close>
      have "api_loop e url eps (if ok then process_endpoint full s else s) = (r, s')" by simp
      from Cons.IH [OF this] grows_process_endpoint [of s full] show ?thesis
        by (auto split: if_splits intro: grows_trans)
    qed
  qed
qed

lemma grows_analyze_js_try: "analyze_js_try e url s = (r, s') \<Longrightarrow> grows s s'"
  unfolding analyze_js_try_def
  by (auto split: option.splits prod.splits sum.splits dest: grows_api_loop)

lemma api_calls_example:
  "re_findall True api_pre api_grp (Lit []) js_text = [''http://h/api/x'', ''http://['']"
  by (simp add: js_text_def api_pre_def api_grp_def re_ev char_ev)

lemma js_examples:
  "urlparse ''http://h/a.js'' d = Inr \<lparr>scheme = ''http'', netloc = ''h''\<rparr>"
  "urlparse ''http://h/api/x'' d = Inr \<lparr>scheme = ''http'', netloc = ''h''\<rparr>"
  "urlparse ''http://['' d = Inl ValueError"
  "classify_endpoint ''http://h/api/x'' = ''backend''"
  "clean_url ''http://h/api/x'' = ''http://h/api/x''"
  by (simp_all add: url_ev char_ev classify_ev re_ev clean_url_def first_piece_def)

lemma analyze_js_try_example:
  "analyze_js_try js_env ''http://h/a.js'' (seed_crawler 1)
     = (Inl ValueError,
        (seed_crawler 1)\<lparr>found_backend_endpoints := {''http://h/api/x''},
                          printed := [(''backend'', ''http://h/api/x'')]\<rparr>)"
  by (simp add: analyze_js_try_def js_env_def api_calls_example js_examples urljoin_def
      is_valid_url_def process_endpoint_def print_finding_def Let_def seed_crawler_def)

text \<open>
  C5, as stated, fails.  The script at \<^verbatim>\<open>http://h/a.js\<close> calls \<^verbatim>\<open>fetch\<close> on
  \<^verbatim>\<open>http://h/api/x\<close> and then on \<^verbatim>\<open>http://[\<close>.  The first target is stored as a
  backend endpoint; on the second \<^verbatim>\<open>urljoin\<close> raises \<^verbatim>\<open>ValueError\<close>.  The analysis has
  failed and returns the empty set, yet it has contributed an endpoint.
\<close>

theorem failed_analysis_keeps_endpoint:
  "fst (analyze_js_try js_env ''http://h/a.js'' (seed_crawler 1)) = Inl ValueError \<and>
   fst (analyze_js js_env ''http://h/a.js'' (seed_crawler 1)) = [] \<and>
   found_backend_endpoints (seed_crawler 1) = {} \<and>
   found_backend_endpoints (snd (analyze_js js_env ''http://h/a.js'' (seed_crawler 1)))
     = {''http://h/api/x''}"
  by (simp add: analyze_js_def analyze_js_try_example) (simp add: seed_crawler_def)

text \<open>
  C5, amended.  When the fetch of the script fails, \<^verbatim>\<open>analyze_js\<close> returns the empty set
  and leaves the crawler as it was.  When the analysis fails in any way, it returns the
  empty set and no exception escapes (the function has no exceptional result); the
  crawler differs from the one before at most by the endpoints that were stored before
  the failure, which stay.
\<close>

theorem analyze_js_on_failure:
  "(http_get e url = None \<longrightarrow> analyze_js e url s = ([], s)) \<and>
   (analyze_js_try e url s = (Inl err, s') \<longrightarrow>
      analyze_js e url s = ([], s') \<and> ctl s' = ctl s \<and> found_functions s' = found_functions s \<and>
      found_html_pages s \<subseteq> found_html_pages s' \<and>
      found_backend_endpoints s \<subseteq> found_backend_endpoints s')"
proof (intro conjI impI)
  assume "http_get e url = None"
  then show "analyze_js e url s = ([], s)" by (simp add: analyze_js_def analyze_js_try_def)
next
  assume a: "analyze_js_try e url s = (Inl err, s')"
  then show "analyze_js e url s = ([], s')" by (simp add: analyze_js_def)
  from grows_analyze_js_try [OF a]
  show "ctl s' = ctl s" "found_functions s' = found_functions s"
    "found_html_pages s \<subseteq> found_html_pages s'"
    "found_backend_endpoints s \<subseteq> found_backend_endpoints s'"
    by (simp_all add: grows_def)
qed

theorem analyze_js_on_failure_witness:
  "http_get js_env ''http://h/b.js'' = None \<and>
   analyze_js js_env ''http://h/b.js'' (seed_crawler 1) = ([], seed_crawler 1) \<and>
   analyze_js js_env ''http://h/a.js'' (seed_crawler 1)
     = ([], (seed_crawler 1)\<lparr>found_backend_endpoints := {''http://h/api/x''},
                               printed := [(''backend'', ''http://h/api/x'')]\<rparr>)"
proof -
  have n: "http_get js_env ''http://h/b.js'' = None" by (simp add: js_env_def)
  from analyze_js_on_failure [of js_env "''http://h/b.js''" "seed_crawler 1" ValueError "seed_crawler 1"]
    analyze_js_on_failure [of js_env "''http://h/a.js''" "seed_crawler 1" ValueError
      "(seed_crawler 1)\<lparr>found_backend_endpoints := {''http://h/api/x''},
                         printed := [(''backend'', ''http://h/api/x'')]\<rparr>"]
    n analyze_js_try_example
  show ?thesis by simp
qed

end
